theory Spec2Isabelle
  imports Main "HOL-Library.Multiset" "HOL-Library.List_Lexorder" "HOL-Library.Char_ord"
begin

section \<open>The patch record\<close>

text \<open>
  The dataclass \<open>PatchFile\<close> of \<open>zman.py\<close>: three strings, the activity flag
  (default \<open>True\<close>) and the optional preferred index (default \<open>None\<close>). Python's
  integers are unbounded, so the preferred index is an \<open>int\<close>.
\<close>

record PatchFile =
  full_path :: string
  file_name :: string
  name :: string
  active :: bool
  preferred_index :: "int option"

datatype py_error = IndexError | TypeError | FileNotFoundError | SystemExit int

section \<open>Python list indexing\<close>

text \<open>
  \<open>xs[i]\<close> on a list of length \<open>n\<close>: indices \<open>0 .. n-1\<close> denote themselves, indices
  \<open>-n .. -1\<close> count from the end, everything else raises \<open>IndexError\<close>.
\<close>

definition py_index :: "nat \<Rightarrow> int \<Rightarrow> py_error + nat" where
  "py_index n i =
     (if 0 \<le> i \<and> i < int n then Inr (nat i)
      else if - int n \<le> i \<and> i < 0 then Inr (nat (int n + i))
      else Inl IndexError)"

section \<open>Python string formatting\<close>

text \<open>\<open>str\<close> of a Python integer, as the f-string \<open>{i}\<close> prints it.\<close>

fun str_nat :: "nat \<Rightarrow> string" where
  "str_nat n =
     (if n < 10 then [''0123456789'' ! n]
      else str_nat (n div 10) @ [''0123456789'' ! (n mod 10)])"

definition str_int :: "int \<Rightarrow> string" where
  "str_int i = (if i < 0 then ''-'' @ str_nat (nat (- i)) else str_nat (nat i))"

section \<open>copy_files: the slot allocation\<close>

definition page_size :: nat where
  "page_size = 64"

definition hit_limit_msg :: string where
  "hit_limit_msg = ''Hit patch limit of 64. Multiple pages not supported yet.''"

type_synonym slot_table = "PatchFile option list"

text \<open>
  The first loop of \<open>copy_files\<close> (lines 213-225), over the remaining input, with the
  three mutable locals \<open>patch_order\<close>, \<open>unordered_patches\<close> and \<open>count\<close> (here \<open>cnt\<close>)
  passed along. It returns the locals and the lines printed; the only line is the
  f-string of line 215 with \<open>page_size\<close> 64 (\<open>hit_limit_msg\<close>). With \<open>verbose\<close> set, the
  line printed for an inactive patch subscripts the dataclass instance (\<open>pf['name']\<close>),
  which raises \<open>TypeError\<close>; \<open>patch_order[pf.preferred_index]\<close> raises \<open>IndexError\<close> out
  of range.
\<close>

fun place_loop ::
  "bool \<Rightarrow> PatchFile list \<Rightarrow> slot_table \<Rightarrow> PatchFile list \<Rightarrow> nat
     \<Rightarrow> py_error + (slot_table \<times> PatchFile list \<times> nat \<times> string list)" where
  "place_loop verbose [] patch_order unordered_patches cnt =
     Inr (patch_order, unordered_patches, cnt, [])"
| "place_loop verbose (pf # rest) patch_order unordered_patches cnt =
     (if cnt > page_size then
        Inr (patch_order, unordered_patches, cnt, [hit_limit_msg])
      else if \<not> active pf then
        (if verbose then Inl TypeError
         else place_loop verbose rest patch_order unordered_patches cnt)
      else
        (case preferred_index pf of
           None \<Rightarrow>
             place_loop verbose rest patch_order (unordered_patches @ [pf]) (cnt + 1)
         | Some p \<Rightarrow>
             (case py_index (length patch_order) p of
                Inl e \<Rightarrow> Inl e
              | Inr c \<Rightarrow>
                  if patch_order ! c = None then
                    place_loop verbose rest (patch_order[c := Some pf]) unordered_patches
                      (cnt + 1)
                  else
                    place_loop verbose rest patch_order (unordered_patches @ [pf])
                      (cnt + 1))))"

text \<open>
  The second loop (lines 227-231), over the cell indices still to visit. A dataclass
  instance is always truthy, so \<open>not patch_order[i]\<close> holds exactly for \<open>None\<close>.
\<close>

fun fill_loop ::
  "nat list \<Rightarrow> slot_table \<Rightarrow> PatchFile list \<Rightarrow> slot_table \<times> PatchFile list" where
  "fill_loop [] patch_order unordered_patches = (patch_order, unordered_patches)"
| "fill_loop (i # is) patch_order unordered_patches =
     (case unordered_patches of
        [] \<Rightarrow> (patch_order, unordered_patches)
      | pf # remaining \<Rightarrow>
          if patch_order ! i = None then fill_loop is (patch_order[i := Some pf]) remaining
          else fill_loop is patch_order unordered_patches)"

text \<open>
  The two loops together, from the initial locals \<open>[None]*64\<close>, \<open>deque()\<close> and
  \<open>count = 1\<close>: the table \<open>patch_order\<close> as the third loop finds it, and the lines printed.
\<close>

definition allocate :: "bool \<Rightarrow> PatchFile list \<Rightarrow> py_error + (slot_table \<times> string list)" where
  "allocate verbose patch_files =
     (case place_loop verbose patch_files (replicate 64 None) [] 1 of
        Inl e \<Rightarrow> Inl e
      | Inr (patch_order, unordered_patches, cnt, printed) \<Rightarrow>
          Inr (fst (fill_loop [0..<page_size] patch_order unordered_patches), printed))"

text \<open>
  The third loop (lines 233-240) only reads the table: for every filled cell \<open>i\<close> it
  copies the file of the patch to the name \<open>{i:03}_zoia_{pf.name}\<close> under \<open>dest_dir\<close> and,
  with \<open>verbose\<close> set, prints one line. The copying itself is \<open>shutil.copyfile\<close>'s; the
  model returns the copies requested, as pairs of source and destination, in cell order.
  \<open>os.path.join\<close> is the POSIX one, for a second component that is no absolute path
  (it starts with a digit here).
\<close>

definition zero_pad3 :: "nat \<Rightarrow> string" where
  "zero_pad3 i = replicate (3 - length (str_nat i)) (CHR ''0'') @ str_nat i"

definition path_join :: "string \<Rightarrow> string \<Rightarrow> string" where
  "path_join a b = (if a = [] \<or> last a = CHR ''/'' then a @ b else a @ ''/'' @ b)"

definition copy_path :: "string \<Rightarrow> nat \<Rightarrow> PatchFile \<Rightarrow> string" where
  "copy_path dest_dir i pf = path_join dest_dir (zero_pad3 i @ ''_zoia_'' @ name pf)"

fun copy_loop :: "nat list \<Rightarrow> slot_table \<Rightarrow> string \<Rightarrow> (string \<times> string) list" where
  "copy_loop [] patch_order dest_dir = []"
| "copy_loop (i # is) patch_order dest_dir =
     (case patch_order ! i of
        None \<Rightarrow> copy_loop is patch_order dest_dir
      | Some pf \<Rightarrow> (full_path pf, copy_path dest_dir i pf) # copy_loop is patch_order dest_dir)"

definition copy_files ::
  "PatchFile list \<Rightarrow> string \<Rightarrow> bool \<Rightarrow> py_error + ((string \<times> string) list \<times> string list)" where
  "copy_files patch_files dest_dir verbose =
     (case allocate verbose patch_files of
        Inl e \<Rightarrow> Inl e
      | Inr (patch_order, printed) \<Rightarrow>
          (let copies = copy_loop [0..<page_size] patch_order dest_dir
           in Inr (copies,
                   printed @ (if verbose then map (\<lambda>(src, dst). ''Created '' @ dst) copies
                              else []))))"

text \<open>The patches of the filled cells of a table, in cell order.\<close>

definition placed :: "slot_table \<Rightarrow> PatchFile list" where
  "placed patch_order = map the (filter (\<lambda>x. x \<noteq> None) patch_order)"

subsection \<open>Notions used to state the properties of the allocation\<close>

text \<open>
  The cell of the 64-cell table that \<open>patch_order[pf.preferred_index]\<close> denotes, if the
  patch has a preferred index and the index does not raise.
\<close>

definition cell :: "PatchFile \<Rightarrow> nat option" where
  "cell pf =
     (case preferred_index pf of
        None \<Rightarrow> None
      | Some p \<Rightarrow> (case py_index 64 p of Inl e \<Rightarrow> None | Inr c \<Rightarrow> Some c))"

text \<open>The patches the first loop handles before it stops: the first 64 active ones.\<close>

definition considered :: "PatchFile list \<Rightarrow> PatchFile list" where
  "considered patch_files = take 64 (filter active patch_files)"

text \<open>
  Entry \<open>j\<close> of a list is the first one to claim its cell: it denotes a cell, the cell is
  empty in the table the loop started with, and no earlier entry denotes the same cell.
\<close>

definition first_claim :: "slot_table \<Rightarrow> PatchFile list \<Rightarrow> nat \<Rightarrow> bool" where
  "first_claim po es j =
     (case cell (es ! j) of
        None \<Rightarrow> False
      | Some c \<Rightarrow> po ! c = None \<and> list_all (\<lambda>e. cell e \<noteq> Some c) (take j es))"

text \<open>The number of empty cells of a table among the cells \<open>i, ..., c - 1\<close>.\<close>

definition empties :: "slot_table \<Rightarrow> nat \<Rightarrow> nat \<Rightarrow> nat" where
  "empties po i c = length (filter (\<lambda>j. po ! j = None) [i..<c])"

text \<open>
  The body of the first loop on a list of active patches, without the counter: the
  first loop runs it on the patches it considers (lemma \<open>place_loop_pin\<close> below).
\<close>

fun pin ::
  "PatchFile list \<Rightarrow> slot_table \<Rightarrow> PatchFile list \<Rightarrow> py_error + (slot_table \<times> PatchFile list)" where
  "pin [] po q = Inr (po, q)"
| "pin (pf # rest) po q =
     (case preferred_index pf of
        None \<Rightarrow> pin rest po (q @ [pf])
      | Some p \<Rightarrow>
          (case py_index (length po) p of
             Inl e \<Rightarrow> Inl e
           | Inr c \<Rightarrow>
               if po ! c = None then pin rest (po[c := Some pf]) q
               else pin rest po (q @ [pf])))"

section \<open>merge_patch_files\<close>

text \<open>
  The dictionary comprehension \<open>{x.full_path: x for x in override_patch_files}\<close> stores
  the records in list order, a later record replacing an earlier one with the same path.
\<close>

definition override_paths :: "PatchFile list \<Rightarrow> (string \<rightharpoonup> PatchFile)" where
  "override_paths override_patch_files =
     foldl (\<lambda>m x. m(full_path x \<mapsto> x)) Map.empty override_patch_files"

definition get_pf :: "(string \<rightharpoonup> PatchFile) \<Rightarrow> PatchFile \<Rightarrow> PatchFile" where
  "get_pf paths pf = (case paths (full_path pf) of Some x \<Rightarrow> x | None \<Rightarrow> pf)"

definition merge_patch_files :: "PatchFile list \<Rightarrow> PatchFile list \<Rightarrow> PatchFile list" where
  "merge_patch_files patch_files override_patch_files =
     map (get_pf (override_paths override_patch_files)) patch_files"

section \<open>get_preferred_index_patches and config_stats\<close>

text \<open>
  The dictionary \<open>index_map\<close> keeps its keys in insertion order; it is an association
  list here. The test \<open>if patch_file.preferred_index:\<close> is Python truthiness: \<open>None\<close>
  and \<open>0\<close> are both false.
\<close>

fun index_map_loop ::
  "PatchFile list \<Rightarrow> (int \<times> string list) list \<Rightarrow> (int \<times> string list) list" where
  "index_map_loop [] index_map = index_map"
| "index_map_loop (patch_file # rest) index_map =
     (case preferred_index patch_file of
        None \<Rightarrow> index_map_loop rest index_map
      | Some i \<Rightarrow>
          if i = 0 then index_map_loop rest index_map
          else
            (let m = (if map_of index_map i = None then index_map @ [(i, [])] else index_map)
             in index_map_loop rest
                  (map (\<lambda>(k, v). if k = i then (k, v @ [name patch_file]) else (k, v)) m)))"

definition get_preferred_index_patches :: "PatchFile list \<Rightarrow> (int \<times> string list) list" where
  "get_preferred_index_patches patch_files = index_map_loop patch_files []"

text \<open>
  The part of \<open>config_stats\<close> after the configuration is read: the three counts and the
  lines \<open>preferred_index_strs\<close> (a tab, the conflict character, the index in brackets, a
  space, the name), one per name, the indices in sorted order.
\<close>

definition preferred_index_strs :: "(int \<times> string list) list \<Rightarrow> string list" where
  "preferred_index_strs preferred_index_patches =
     concat (map (\<lambda>i.
        (let names = the (map_of preferred_index_patches i);
             conflict_char = (if length names > 1 then CHR ''*'' else CHR '' '')
         in map (\<lambda>p. [CHR 0x09, conflict_char] @ ''['' @ str_int i @ ''] '' @ p) names))
      (sort (map fst preferred_index_patches)))"

definition config_stats :: "PatchFile list \<Rightarrow> nat \<times> nat \<times> nat \<times> string list" where
  "config_stats patch_files =
     (let total_patches = length patch_files;
          active_patches = length (filter active patch_files);
          preferred_index_patches = get_preferred_index_patches patch_files;
          preferred_index_patch_count = sum_list (map (\<lambda>(i, ns). length ns) preferred_index_patches)
      in (total_patches, active_patches, preferred_index_patch_count,
          preferred_index_strs preferred_index_patches))"

section \<open>create_config and get_patch_files_from_config\<close>

text \<open>
  The configuration file is a JSON text. The text layer is the standard library's
  (\<open>json.dumps\<close>, \<open>json.loads\<close>): a file is represented by the JSON document its text
  denotes, or by \<open>NotJSON\<close> when \<open>json.loads\<close> rejects the text. Numbers are the
  integers; \<open>sort_keys=True\<close> writes the keys of every object in sorted order.
\<close>

datatype json =
    JNull
  | JBool bool
  | JInt int
  | JString string
  | JArray "json list"
  | JObject "(string \<times> json) list"

datatype file_content = Document json | NotJSON

fun sort_keys :: "json \<Rightarrow> json" where
  "sort_keys (JArray xs) = JArray (map sort_keys xs)"
| "sort_keys (JObject kvs) = JObject (sort_key fst (map (\<lambda>(k, v). (k, sort_keys v)) kvs))"
| "sort_keys j = j"

text \<open>The method \<open>PatchFile.config\<close>: the dictionary of the five fields, in this order.\<close>

definition config :: "PatchFile \<Rightarrow> (string \<times> json) list" where
  "config pf =
     [(''name'', JString (name pf)),
      (''full_path'', JString (full_path pf)),
      (''file_name'', JString (file_name pf)),
      (''active'', JBool (active pf)),
      (''preferred_index'', (case preferred_index pf of None \<Rightarrow> JNull | Some i \<Rightarrow> JInt i))]"

text \<open>
  \<open>create_config\<close> writes the file and prints one line. The file system is a map from
  paths to contents.
\<close>

definition create_config ::
  "PatchFile list \<Rightarrow> string \<Rightarrow> (string \<rightharpoonup> file_content)
     \<Rightarrow> (string \<rightharpoonup> file_content) \<times> string list" where
  "create_config patch_files fname fs =
     (fs(fname \<mapsto> Document (sort_keys (JArray (map (\<lambda>pf. JObject (config pf)) patch_files)))),
      [''Wrote patch config to '' @ fname @ ''.''])"

text \<open>
  \<open>PatchFile(**x)\<close>, the constructor the dataclass generates, called with the keywords of
  a dictionary: a keyword that is no field raises \<open>TypeError\<close>, and so does a missing
  \<open>full_path\<close>, \<open>file_name\<close> or \<open>name\<close>; \<open>active\<close> and \<open>preferred_index\<close> have defaults.
  Python does not check the annotated types. The record here is typed, so the result is
  \<open>None\<close> when a value has another JSON type than its field: the object Python builds
  then is outside this model.
\<close>

definition field_names :: "string list" where
  "field_names = [''full_path'', ''file_name'', ''name'', ''active'', ''preferred_index'']"

definition PatchFile_init :: "(string \<times> json) list \<Rightarrow> (py_error + PatchFile) option" where
  "PatchFile_init kwargs =
     (if list_ex (\<lambda>k. k \<notin> set field_names) (map fst kwargs) then Some (Inl TypeError)
      else
        (case (map_of kwargs ''full_path'', map_of kwargs ''file_name'', map_of kwargs ''name'') of
           (Some fp, Some fn, Some n) \<Rightarrow>
             (case (fp, fn, n,
                    case_option (JBool True) id (map_of kwargs ''active''),
                    case_option JNull id (map_of kwargs ''preferred_index'')) of
                (JString fp', JString fn', JString n', JBool a, JNull) \<Rightarrow>
                  Some (Inr \<lparr>full_path = fp', file_name = fn', name = n', active = a,
                             preferred_index = None\<rparr>)
              | (JString fp', JString fn', JString n', JBool a, JInt i) \<Rightarrow>
                  Some (Inr \<lparr>full_path = fp', file_name = fn', name = n', active = a,
                             preferred_index = Some i\<rparr>)
              | _ \<Rightarrow> None)
         | _ \<Rightarrow> Some (Inl TypeError)))"

text \<open>
  The list comprehension \<open>[PatchFile(**x) for x in json.loads(txt)]\<close>: the first element
  that raises ends it.
\<close>

fun init_all :: "json list \<Rightarrow> (py_error + PatchFile list) option" where
  "init_all [] = Some (Inr [])"
| "init_all (x # xs) =
     (case x of
        JObject kwargs \<Rightarrow>
          (case PatchFile_init kwargs of
             None \<Rightarrow> None
           | Some (Inl e) \<Rightarrow> Some (Inl e)
           | Some (Inr pf) \<Rightarrow>
               (case init_all xs of
                  None \<Rightarrow> None
                | Some (Inl e) \<Rightarrow> Some (Inl e)
                | Some (Inr pfs) \<Rightarrow> Some (Inr (pf # pfs))))
      | _ \<Rightarrow> Some (Inl TypeError))"

text \<open>
  \<open>get_patch_files_from_config\<close>: \<open>open\<close> stands outside the \<open>try\<close>, so a missing file
  raises \<open>FileNotFoundError\<close>; every exception of the parsing and of the comprehension is
  caught, reported and turned into \<open>exit(1)\<close>. A document that is no array is iterated
  all the same: an empty object or string gives the empty list, a non-empty one passes
  its keys or characters (strings) to \<open>**\<close>, which raises; the other values are not
  iterable.
\<close>

definition get_patch_files_from_config ::
  "string \<Rightarrow> (string \<rightharpoonup> file_content) \<Rightarrow> (py_error + PatchFile list) option" where
  "get_patch_files_from_config config_path fs =
     (case fs config_path of
        None \<Rightarrow> Some (Inl FileNotFoundError)
      | Some NotJSON \<Rightarrow> Some (Inl (SystemExit 1))
      | Some (Document d) \<Rightarrow>
          (case d of
             JArray xs \<Rightarrow>
               (case init_all xs of
                  None \<Rightarrow> None
                | Some (Inl e) \<Rightarrow> Some (Inl (SystemExit 1))
                | Some (Inr pfs) \<Rightarrow> Some (Inr pfs))
           | JObject kvs \<Rightarrow> if kvs = [] then Some (Inr []) else Some (Inl (SystemExit 1))
           | JString s \<Rightarrow> if s = [] then Some (Inr []) else Some (Inl (SystemExit 1))
           | _ \<Rightarrow> Some (Inl (SystemExit 1))))"

section \<open>Example patches\<close>

text \<open>
  A patch as \<open>get_patch_files\<close> builds it for the file \<open>n\<close> of the directory
  \<open>./patches\<close> (no index prefix to strip), with the given flag and preferred index.
\<close>

definition patch :: "string \<Rightarrow> bool \<Rightarrow> int option \<Rightarrow> PatchFile" where
  "patch n a p =
     \<lparr>full_path = ''./patches/'' @ n, file_name = n, name = n, active = a,
      preferred_index = p\<rparr>"

text \<open>\<open>n\<close> active patches without a preferred index, with different names.\<close>

definition plain_patches :: "nat \<Rightarrow> PatchFile list" where
  "plain_patches n = map (\<lambda>i. patch (str_nat i @ ''.bin'') True None) [0..<n]"

section \<open>Python list indexing: facts\<close>

lemma py_index_less:
  "py_index n i = Inr c \<Longrightarrow> c < n"
  by (auto simp: py_index_def split: if_splits)

lemma py_index_ok_iff: "(\<exists>c. py_index n p = Inr c) \<longleftrightarrow> - int n \<le> p \<and> p < int n"
  by (auto simp: py_index_def)

lemma cell_None: "preferred_index pf = None \<Longrightarrow> cell pf = None"
  by (simp add: cell_def)

lemma cell_Some: "preferred_index pf = Some p \<Longrightarrow> py_index 64 p = Inr d \<Longrightarrow> cell pf = Some d"
  by (simp add: cell_def)

lemma cell_Some_iff:
  "cell pf = Some c \<longleftrightarrow> (\<exists>p. preferred_index pf = Some p \<and> py_index 64 p = Inr c)"
  by (auto simp: cell_def split: option.splits sum.splits)

lemma cell_int: "preferred_index E = Some (int k) \<Longrightarrow> k < 64 \<Longrightarrow> cell E = Some k"
  by (simp add: cell_def py_index_def)

lemma cell_in_range:
  "preferred_index x = Some p \<Longrightarrow> 0 \<le> p \<Longrightarrow> p < 64 \<Longrightarrow> cell x = Some k \<longleftrightarrow> p = int k"
  by (auto simp: cell_def py_index_def)

section \<open>The patches of a table\<close>

lemma placed_Nil: "placed [] = []"
  by (simp add: placed_def)

lemma placed_Cons:
  "placed (a # po) = (case a of None \<Rightarrow> placed po | Some x \<Rightarrow> x # placed po)"
  by (simp add: placed_def split: option.splits)

lemma placed_replicate: "placed (replicate n None) = []"
  by (simp add: placed_def)

lemma placed_update:
  "i < length po \<Longrightarrow> po ! i = None \<Longrightarrow>
   mset (placed (po[i := Some x])) = add_mset x (mset (placed po))"
proof (induction po arbitrary: i)
  case Nil
  then show ?case by simp
next
  case (Cons a po)
  then show ?case
    by (cases i) (auto simp: placed_Cons split: option.splits)
qed

lemma nth_placed: "c < length t \<Longrightarrow> t ! c = Some e \<Longrightarrow> e \<in> set (placed t)"
proof -
  assume "c < length t" and e: "t ! c = Some e"
  then have "Some e \<in> set (filter (\<lambda>x. x \<noteq> None) t)" by (auto simp: in_set_conv_nth)
  then have "the (Some e) \<in> set (placed t)" unfolding placed_def by (simp only: set_map image_eqI)
  then show ?thesis by simp
qed

lemma distinct_placed_cells:
  "distinct (placed t) \<Longrightarrow> c < length t \<Longrightarrow> c' < length t \<Longrightarrow> c \<noteq> c' \<Longrightarrow>
   t ! c \<noteq> None \<Longrightarrow> t ! c \<noteq> t ! c'"
proof (induction t arbitrary: c c')
  case Nil
  then show ?case by simp
next
  case (Cons a t)
  show ?case
  proof (cases a)
    case None
    with Cons show ?thesis
      by (cases c; cases c') (auto simp: placed_Cons)
  next
    case (Some x)
    with Cons.prems have x: "x \<notin> set (placed t)" and d: "distinct (placed t)"
      by (simp_all add: placed_Cons)
    show ?thesis
    proof (cases c)
      case 0
      with Cons.prems obtain n where n: "c' = Suc n" "n < length t" by (cases c') auto
      with x have "t ! n \<noteq> Some x" using nth_placed by blast 
      with 0 n Some show ?thesis by simp
    next
      case (Suc m)
      show ?thesis
      proof (cases c')
        case 0
        from Suc Cons.prems have "m < length t" by simp
        with x have "t ! m \<noteq> Some x" using nth_placed by blast
        with 0 Suc Some show ?thesis by simp
      next
        case (Suc n)
        with \<open>c = Suc m\<close> Cons.prems d Cons.IH[of m n] show ?thesis by simp
      qed
    qed
  qed
qed

section \<open>The body of the first loop\<close>

text \<open>
  What \<open>pin\<close> does to the table and to the queue: a cell that was filled stays as it
  was, an empty cell receives the first entry that denotes it; the queue receives, in
  order, the entries that are not the first to claim their cell; no entry is lost or
  repeated; the only error is the \<open>IndexError\<close> of an index that is no list index.
\<close>

lemma pin_length: "pin es po q = Inr (po', q') \<Longrightarrow> length po' = length po"
  by (induction es po q rule: pin.induct) (auto split: option.splits sum.splits if_splits)

lemma pin_cells:
  "pin es po q = Inr (po', q') \<Longrightarrow> length po = 64 \<Longrightarrow> c < 64 \<Longrightarrow>
   po' ! c = (case po ! c of Some x \<Rightarrow> Some x | None \<Rightarrow> find (\<lambda>e. cell e = Some c) es)"
proof (induction es po q rule: pin.induct)
  case (1 po q)
  then show ?case by (simp split: option.splits)
next
  case (2 pf rest po q)
  show ?case
  proof (cases "preferred_index pf")
    case None
    then have "cell pf = None" by (simp add: cell_def)
    with 2 None show ?thesis by (simp split: option.splits)
  next
    case (Some p)
    with "2.prems" obtain d where d: "py_index 64 p = Inr d"
      by (auto split: sum.splits)
    then have dlt: "d < 64" by (rule py_index_less)
    have cpf: "cell pf = Some d" using Some d by (simp add: cell_def)
    show ?thesis
    proof (cases "po ! d = None")
      case True
      with 2 Some d have "po' ! c = (case po[d := Some pf] ! c of Some x \<Rightarrow> Some x | None \<Rightarrow> find (\<lambda>e. cell e = Some c) rest)"
        by simp
      then show ?thesis using True cpf dlt "2.prems"
        by (cases "c = d") (auto split: option.splits)
    next
      case False
      with 2 Some d have "po' ! c = (case po ! c of Some x \<Rightarrow> Some x | None \<Rightarrow> find (\<lambda>e. cell e = Some c) rest)"
        by simp
      then show ?thesis using False cpf
        by (cases "c = d") (auto split: option.splits)
    qed
  qed
qed

lemma first_claim_0:
  "first_claim po (pf # rest) 0 = (\<exists>c. cell pf = Some c \<and> po ! c = None)"
  by (auto simp: first_claim_def split: option.splits)

lemma first_claim_Suc:
  "first_claim po (pf # rest) (Suc j) =
     (\<exists>c. cell (rest ! j) = Some c \<and> po ! c = None \<and> cell pf \<noteq> Some c \<and>
          list_all (\<lambda>e. cell e \<noteq> Some c) (take j rest))"
  by (auto simp: first_claim_def split: option.splits)

lemma first_claim_skip:
  "\<forall>c. cell pf = Some c \<longrightarrow> po ! c \<noteq> None \<Longrightarrow>
   first_claim po (pf # rest) (Suc j) = first_claim po rest j"
  by (auto simp: first_claim_Suc first_claim_def split: option.splits)

lemma first_claim_taken:
  "cell pf = Some d \<Longrightarrow> d < length po \<Longrightarrow>
   first_claim po (pf # rest) (Suc j) = first_claim (po[d := Some pf]) rest j"
  by (auto simp: first_claim_Suc first_claim_def nth_list_update split: option.splits)

lemma pin_queue:
  "pin es po q = Inr (po', q') \<Longrightarrow> length po = 64 \<Longrightarrow>
   q' = q @ nths es {j. \<not> first_claim po es j}"
proof (induction es po q rule: pin.induct)
  case (1 po q)
  then show ?case by simp
next
  case (2 pf rest po q)
  show ?case
  proof (cases "preferred_index pf")
    case None
    then have c: "cell pf = None" by (rule cell_None)
    then have skip: "\<And>j. first_claim po (pf # rest) (Suc j) = first_claim po rest j"
      by (simp add: first_claim_skip)
    from 2 None have "q' = (q @ [pf]) @ nths rest {j. \<not> first_claim po rest j}" by simp
    then show ?thesis using c by (simp add: nths_Cons first_claim_0 skip)
  next
    case (Some p)
    with "2.prems" obtain d where d: "py_index 64 p = Inr d"
      by (auto split: sum.splits)
    then have dlt: "d < length po" using "2.prems" by (auto dest: py_index_less)
    have cpf: "cell pf = Some d" using Some d by (rule cell_Some)
    show ?thesis
    proof (cases "po ! d = None")
      case True
      with 2 Some d have "q' = q @ nths rest {j. \<not> first_claim (po[d := Some pf]) rest j}"
        by simp
      then show ?thesis using True cpf
        by (simp add: nths_Cons first_claim_0 first_claim_taken[OF cpf dlt])
    next
      case False
      then have skip: "\<And>j. first_claim po (pf # rest) (Suc j) = first_claim po rest j"
        using cpf by (simp add: first_claim_skip)
      from 2 Some d False have "q' = (q @ [pf]) @ nths rest {j. \<not> first_claim po rest j}"
        by simp
      then show ?thesis using False cpf by (simp add: nths_Cons first_claim_0 skip)
    qed
  qed
qed

lemma pin_mset:
  "pin es po q = Inr (po', q') \<Longrightarrow>
   mset (placed po') + mset q' = mset (placed po) + mset q + mset es"
proof (induction es po q rule: pin.induct)
  case (1 po q)
  then show ?case by simp
next
  case (2 pf rest po q)
  then show ?case
    by (auto split: option.splits sum.splits if_splits simp: placed_update dest: py_index_less)
qed

lemma pin_error: "pin es po q = Inl e \<Longrightarrow> e = IndexError"
  by (induction es po q rule: pin.induct)
     (auto split: option.splits sum.splits if_splits simp: py_index_def)

lemma pin_ok_iff:
  "(\<exists>r. pin es po q = Inr r) \<longleftrightarrow>
   (\<forall>e\<in>set es. \<forall>p. preferred_index e = Some p \<longrightarrow> - int (length po) \<le> p \<and> p < int (length po))"
proof (induction es po q rule: pin.induct)
  case (1 po q)
  then show ?case by simp
next
  case (2 pf rest po q)
  show ?case
  proof (cases "preferred_index pf")
    case None
    with 2 show ?thesis by simp
  next
    case (Some p)
    show ?thesis
    proof (cases "py_index (length po) p")
      case (Inl e)
      then have "\<not> (- int (length po) \<le> p \<and> p < int (length po))"
        using py_index_ok_iff[of "length po" p] by simp
      with Some Inl show ?thesis by auto
    next
      case (Inr c)
      then have "- int (length po) \<le> p \<and> p < int (length po)"
        using py_index_ok_iff[of "length po" p] by blast
      with 2 Some Inr show ?thesis by (cases "po ! c = None") auto
    qed
  qed
qed

section \<open>The first loop runs the body on the considered patches\<close>

text \<open>
  With the counter at \<open>cnt\<close>, the first loop handles the next \<open>65 - cnt\<close> active
  patches and nothing else: whenever it returns, \<open>pin\<close> on those patches returns the same
  table and queue; with \<open>verbose\<close> off it returns exactly when \<open>pin\<close> does.
\<close>

lemma take_budget:
  "cnt \<le> 64 \<Longrightarrow> take (65 - cnt) (pf # xs) = pf # take (64 - cnt) xs"
proof -
  assume "cnt \<le> 64"
  then have "65 - cnt = Suc (64 - cnt)" by arith
  then show ?thesis by simp
qed

lemma place_loop_pin:
  "place_loop verbose pfs po q cnt = Inr (po', q', cnt', out) \<Longrightarrow>
   pin (take (65 - cnt) (filter active pfs)) po q = Inr (po', q')"
proof (induction verbose pfs po q cnt rule: place_loop.induct)
  case (1 verbose po q cnt)
  then show ?case by simp
next
  case (2 verbose pf rest po q cnt)
  show ?case
  proof (cases "cnt > 64")
    case True
    with "2.prems" show ?thesis by (simp add: page_size_def)
  next
    case False
    then have le: "cnt \<le> 64" by simp
    show ?thesis
    proof (cases "active pf")
      case False
      with 2 le show ?thesis by (simp add: page_size_def split: if_splits)
    next
      case True
      with 2 le show ?thesis
        by (auto simp add: page_size_def take_budget split: option.splits sum.splits if_splits)
    qed
  qed
qed

lemma place_loop_False_pin:
  "pin (take (65 - cnt) (filter active pfs)) po q = Inr (po', q') \<Longrightarrow>
   \<exists>cnt' out. place_loop False pfs po q cnt = Inr (po', q', cnt', out)"
proof (induction False pfs po q cnt rule: place_loop.induct)
  case (1 po q cnt)
  then show ?case by simp
next
  case (2 pf rest po q cnt)
  show ?case
  proof (cases "cnt > 64")
    case True
    with "2.prems" show ?thesis by (simp add: page_size_def)
  next
    case False
    then have le: "cnt \<le> 64" by simp
    show ?thesis
    proof (cases "active pf")
      case False
      with 2 le show ?thesis by (simp add: page_size_def)
    next
      case True
      with 2 le show ?thesis
        by (auto simp add: page_size_def take_budget split: option.splits sum.splits if_splits)
    qed
  qed
qed

lemma place_loop_pin_error:
  "pin (take (65 - cnt) (filter active pfs)) po q = Inl e \<Longrightarrow>
   \<exists>e'. place_loop verbose pfs po q cnt = Inl e' \<and> (\<not> verbose \<longrightarrow> e' = e)"
proof (induction verbose pfs po q cnt rule: place_loop.induct)
  case (1 verbose po q cnt)
  then show ?case by simp
next
  case (2 verbose pf rest po q cnt)
  show ?case
  proof (cases "cnt > 64")
    case True
    with "2.prems" show ?thesis by (simp add: page_size_def)
  next
    case False
    then have le: "cnt \<le> 64" by simp
    show ?thesis
    proof (cases "active pf")
      case False
      with 2 le show ?thesis by (simp add: page_size_def)
    next
      case True
      with 2 le show ?thesis
        by (auto simp add: page_size_def take_budget split: option.splits sum.splits if_splits)
    qed
  qed
qed

lemma place_loop_error:
  "place_loop verbose pfs po q cnt = Inl e \<Longrightarrow> e = IndexError \<or> (verbose \<and> e = TypeError)"
  by (induction verbose pfs po q cnt rule: place_loop.induct)
     (auto split: option.splits sum.splits if_splits simp: py_index_def)

lemma place_loop_printed:
  "place_loop verbose pfs po q cnt = Inr (po', q', cnt', out) \<Longrightarrow> cnt \<le> 65 \<Longrightarrow>
   (65 - cnt < length (filter active pfs) \<longrightarrow> out = [hit_limit_msg]) \<and>
   (length (filter active pfs) < 65 - cnt \<longrightarrow> out = [])"
proof (induction verbose pfs po q cnt rule: place_loop.induct)
  case (1 verbose po q cnt)
  then show ?case by simp
next
  case (2 verbose pf rest po q cnt)
  show ?case
  proof (cases "cnt > 64")
    case True
    with "2.prems" show ?thesis by (auto simp add: page_size_def)
  next
    case False
    then have le: "cnt \<le> 64" by simp
    show ?thesis
    proof (cases "active pf")
      case False
      with 2 le show ?thesis by (simp add: page_size_def split: if_splits)
    next
      case True
      with 2 le show ?thesis
        by (auto simp add: page_size_def split: option.splits sum.splits if_splits)
    qed
  qed
qed

lemma considered_split:
  "active E \<Longrightarrow> length (filter active pre) < 64 \<Longrightarrow>
   considered (pre @ E # post) =
     filter active pre @ E # take (63 - length (filter active pre)) (filter active post)"
proof -
  assume a: "active E" and l: "length (filter active pre) < 64"
  then have "64 - length (filter active pre) = Suc (63 - length (filter active pre))" by arith
  with a l show ?thesis by (simp add: considered_def)
qed

lemma set_considered: "e \<in> set (considered pfs) \<Longrightarrow> active e \<and> e \<in> set pfs"
  by (auto simp: considered_def dest: in_set_takeD)

lemma mset_considered_subset: "mset (considered pfs) \<subseteq># mset pfs"
proof -
  have "mset (filter active pfs) = mset (take 64 (filter active pfs)) + mset (drop 64 (filter active pfs))"
    by (metis append_take_drop_id mset_append)
  then have "mset (considered pfs) \<subseteq># mset (filter active pfs)"
    by (simp add: considered_def)
  also have "\<dots> \<subseteq># mset pfs" by simp
  finally show ?thesis .
qed

section \<open>The second loop\<close>

text \<open>
  On the cells \<open>i, ..., n - 1\<close> the second loop gives the queue entry number \<open>r\<close> to the
  empty cell that has \<open>r\<close> empty cells before it, and leaves the rest of the queue.
\<close>

lemma empties_same: "empties po i i = 0"
  by (simp add: empties_def)

lemma empties_step:
  "i < c \<Longrightarrow> empties po i c = (if po ! i = None then 1 else 0) + empties po (Suc i) c"
  by (simp add: empties_def upt_conv_Cons)

lemma empties_update: "empties (po[i := v]) (Suc i) c = empties po (Suc i) c"
proof -
  have "filter (\<lambda>j. po[i := v] ! j = None) [Suc i..<c] = filter (\<lambda>j. po ! j = None) [Suc i..<c]"
    by (rule filter_cong) auto
  then show ?thesis by (simp add: empties_def)
qed

lemma empties_placed: "empties po 0 (length po) + length (placed po) = length po"
proof -
  have "filter (\<lambda>x. x = None) (map ((!) po) [0..<length po])
        = map ((!) po) (filter (\<lambda>j. po ! j = None) [0..<length po])"
    by (simp add: filter_map comp_def)
  then have "length (filter (\<lambda>x. x = None) po) = empties po 0 (length po)"
    by (simp add: map_nth empties_def del: upt_Suc)
  moreover have "length (filter (\<lambda>x. x = None) po) + length (filter (\<lambda>x. x \<noteq> None) po) = length po"
    using sum_length_filter_compl[of "\<lambda>x. x = None" po] by simp
  ultimately show ?thesis by (simp add: placed_def)
qed

lemma fill_loop_upt:
  "fill_loop [i..<n] po q = (po', q') \<Longrightarrow> n \<le> length po \<Longrightarrow>
   length po' = length po \<and> q' = drop (empties po i n) q \<and>
   (\<forall>c<length po. po' ! c =
      (if i \<le> c \<and> c < n \<and> po ! c = None \<and> empties po i c < length q
       then Some (q ! empties po i c) else po ! c))"
proof (induction "n - i" arbitrary: i po q)
  case 0
  then have "[i..<n] = []" by simp
  with "0.prems" have "po' = po" "q' = q" by simp_all
  moreover have "empties po i n = 0" using 0 by (simp add: empties_def)
  ultimately show ?case using 0 by auto
next
  case (Suc k)
  then have lt: "i < n" by simp
  then have upt: "[i..<n] = i # [Suc i..<n]" by (simp add: upt_conv_Cons)
  have k: "k = n - Suc i" using Suc.hyps by simp
  show ?case
  proof (cases q)
    case Nil
    with Suc.prems upt show ?thesis by simp
  next
    case (Cons pf qr)
    show ?thesis
    proof (cases "po ! i = None")
      case True
      let ?po1 = "po[i := Some pf]"
      from Suc.prems upt Cons True have run: "fill_loop [Suc i..<n] ?po1 qr = (po', q')"
        by simp
      have len1: "n \<le> length ?po1" using Suc.prems by simp
      note IH = Suc.hyps(1)[OF k run len1]
      have e_n: "empties po i n = Suc (empties po (Suc i) n)"
        using lt True by (simp add: empties_step)
      have cells: "po' ! c =
          (if i \<le> c \<and> c < n \<and> po ! c = None \<and> empties po i c < length q
           then Some (q ! empties po i c) else po ! c)" if c: "c < length po" for c
      proof -
        from IH c have pc: "po' ! c =
          (if Suc i \<le> c \<and> c < n \<and> ?po1 ! c = None \<and> empties ?po1 (Suc i) c < length qr
           then Some (qr ! empties ?po1 (Suc i) c) else ?po1 ! c)" by simp
        consider "c < i" | "c = i" | "i < c" by arith
        then show ?thesis
        proof cases
          case 1
          with pc show ?thesis by simp
        next
          case 2
          with pc c lt True Cons show ?thesis by (simp add: empties_same)
        next
          case 3
          then have "empties po i c = Suc (empties po (Suc i) c)"
            using True by (simp add: empties_step)
          with pc 3 Cons show ?thesis by (simp add: empties_update)
        qed
      qed
      from IH have "q' = drop (empties po i n) q"
        by (simp add: e_n empties_update Cons)
      with IH cells show ?thesis by simp
    next
      case False
      from Suc.prems upt Cons False have run: "fill_loop [Suc i..<n] po q = (po', q')"
        by simp
      note IH = Suc.hyps(1)[OF k run Suc.prems(2)]
      have e_n: "empties po i n = empties po (Suc i) n"
        using lt False by (simp add: empties_step)
      have cells: "po' ! c =
          (if i \<le> c \<and> c < n \<and> po ! c = None \<and> empties po i c < length q
           then Some (q ! empties po i c) else po ! c)" if c: "c < length po" for c
      proof -
        from IH c have pc: "po' ! c =
          (if Suc i \<le> c \<and> c < n \<and> po ! c = None \<and> empties po (Suc i) c < length q
           then Some (q ! empties po (Suc i) c) else po ! c)" by simp
        consider "c < i" | "c = i" | "i < c" by arith
        then show ?thesis
        proof cases
          case 1
          with pc show ?thesis by simp
        next
          case 2
          with pc False show ?thesis by simp
        next
          case 3
          then have "empties po i c = empties po (Suc i) c"
            using False by (simp add: empties_step)
          with pc 3 show ?thesis by simp
        qed
      qed
      from IH have "q' = drop (empties po i n) q" by (simp add: e_n)
      with IH cells show ?thesis by simp
    qed
  qed
qed

lemma fill_loop_mset:
  "fill_loop is po q = (po', q') \<Longrightarrow> \<forall>i\<in>set is. i < length po \<Longrightarrow>
   mset (placed po') + mset q' = mset (placed po) + mset q"
proof (induction "is" po q rule: fill_loop.induct)
  case (1 po q)
  then show ?case by simp
next
  case (2 i "is" po q)
  then show ?case
    by (auto split: list.splits if_splits simp: placed_update)
qed

section \<open>The allocation as a whole\<close>

lemma allocate_sum:
  "allocate verbose pfs =
     (case place_loop verbose pfs (replicate 64 None) [] 1 of
        Inl e \<Rightarrow> Inl e
      | Inr (po, q, cnt, out) \<Rightarrow> Inr (fst (fill_loop [0..<64] po q), out))"
  unfolding allocate_def page_size_def by (rule refl)

lemma allocate_run:
  assumes "allocate verbose pfs = Inr (t, out)"
  obtains po q cnt where
    "place_loop verbose pfs (replicate 64 None) [] 1 = Inr (po, q, cnt, out)"
    "pin (considered pfs) (replicate 64 None) [] = Inr (po, q)"
    "length po = 64"
    "fill_loop [0..<64] po q = (t, [])"
    "mset (placed po) + mset q = mset (considered pfs)"
proof -
  from assms obtain po q cnt where
    run: "place_loop verbose pfs (replicate 64 None) [] 1 = Inr (po, q, cnt, out)"
    and t: "t = fst (fill_loop [0..<64] po q)"
    by (auto simp: allocate_def page_size_def split: sum.splits)
  from place_loop_pin[OF run]
  have pin: "pin (considered pfs) (replicate 64 None) [] = Inr (po, q)"
    by (simp add: considered_def)
  from pin_length[OF pin] have len: "length po = 64" by simp
  from pin_mset[OF pin] have ms: "mset (placed po) + mset q = mset (considered pfs)"
    by (simp add: placed_replicate)
  then have "size (mset (placed po) + mset q) = size (mset (considered pfs))" by simp
  then have "length (placed po) + length q \<le> 64" by (simp add: considered_def)
  moreover have "empties po 0 64 + length (placed po) = 64"
    using empties_placed[of po] len by simp
  ultimately have enough: "length q \<le> empties po 0 64" by arith
  obtain t' q' where f: "fill_loop [0..<64] po q = (t', q')" by (cases "fill_loop [0..<64] po q")
  from fill_loop_upt[OF f] len have "q' = drop (empties po 0 64) q" by simp
  with enough have "q' = []" by simp
  with f t have "fill_loop [0..<64] po q = (t, [])" by simp
  with run pin len ms show ?thesis by (auto intro: that)
qed

lemma allocate_cells:
  assumes "place_loop verbose pfs (replicate 64 None) [] 1 = Inr (po, q, cnt, out)"
  shows "\<exists>t. allocate verbose pfs = Inr (t, out) \<and> length t = 64 \<and>
     (\<forall>c<64. t ! c =
        (if po ! c = None \<and> empties po 0 c < length q then Some (q ! empties po 0 c)
         else po ! c))"
proof -
  obtain t q' where f: "fill_loop [0..<64] po q = (t, q')" by (cases "fill_loop [0..<64] po q")
  from pin_length[OF place_loop_pin[OF assms]] have len: "length po = 64" by simp
  from fill_loop_upt[OF f] len
  have "length t = 64" and "\<forall>c<64. t ! c =
        (if po ! c = None \<and> empties po 0 c < length q then Some (q ! empties po 0 c)
         else po ! c)" by simp_all
  moreover have "allocate verbose pfs = Inr (t, out)"
    using assms f by (simp add: allocate_def page_size_def)
  ultimately show ?thesis by blast
qed

lemma allocate_keeps_pins:
  assumes "allocate verbose pfs = Inr (t, out)" and "c < 64"
    and "find (\<lambda>e. cell e = Some c) (considered pfs) = Some E"
  shows "t ! c = Some E"
proof -
  from assms(1) obtain po q cnt where
    pin: "pin (considered pfs) (replicate 64 None) [] = Inr (po, q)"
    and len: "length po = 64"
    and f: "fill_loop [0..<64] po q = (t, [])"
    by (rule allocate_run)
  from pin_cells[OF pin _ assms(2)] assms(2,3) have "po ! c = Some E" by simp
  with fill_loop_upt[OF f] len assms(2) show ?thesis by simp
qed

lemma allocate_mset:
  assumes "allocate verbose pfs = Inr (t, out)"
  shows "mset (placed t) = mset (considered pfs)" and "length t = 64"
proof -
  from assms obtain po q cnt where
    len: "length po = 64"
    and f: "fill_loop [0..<64] po q = (t, [])"
    and ms: "mset (placed po) + mset q = mset (considered pfs)"
    by (rule allocate_run)
  from fill_loop_mset[OF f] len have "mset (placed t) = mset (placed po) + mset q" by simp
  with ms show "mset (placed t) = mset (considered pfs)" by simp
  from fill_loop_upt[OF f] len show "length t = 64" by simp
qed

lemma find_first:
  "\<forall>x\<in>set xs. \<not> P x \<Longrightarrow> P y \<Longrightarrow> find P (xs @ y # ys) = Some y"
  by (induction xs) auto

lemma claimed_cell_held:
  assumes "allocate verbose (pre @ E # post) = Inr (table, out)"
    and "active E" and "cell E = Some c"
    and "length (filter active pre) < 64"
    and "\<forall>x\<in>set pre. active x \<longrightarrow> cell x \<noteq> Some c"
  shows "table ! c = Some E"
proof -
  from assms(3) have c: "c < 64"
    by (auto simp: cell_def split: option.splits sum.splits dest: py_index_less)
  have "find (\<lambda>e. cell e = Some c) (considered (pre @ E # post)) = Some E"
    unfolding considered_split[OF assms(2,4)]
    using assms(3,5) by (intro find_first) auto
  with assms(1) c show ?thesis by (rule allocate_keeps_pins)
qed

lemma nth_in_nths: "i < length xs \<Longrightarrow> i \<in> I \<Longrightarrow> xs ! i \<in> set (nths xs I)"
  by (auto simp: set_nths)

lemma later_claimant_queued:
  assumes pin: "pin (considered (pre @ Y # post)) (replicate 64 None) [] = Inr (po, q)"
    and "active Y" and "cell Y = Some c"
    and "length (filter active pre) < 64"
    and "\<exists>x\<in>set pre. active x \<and> cell x = Some c"
  shows "Y \<in> set q"
proof -
  let ?es = "considered (pre @ Y # post)"
  let ?j = "length (filter active pre)"
  have es: "?es = filter active pre @ Y # take (63 - ?j) (filter active post)"
    using assms(2,4) by (rule considered_split)
  then have j: "?j < length ?es" and Y: "?es ! ?j = Y" and tk: "take ?j ?es = filter active pre"
    by (simp_all add: nth_append)
  from assms(5) have "\<not> list_all (\<lambda>e. cell e \<noteq> Some c) (filter active pre)"
    by (auto simp: list_all_iff)
  then have "\<not> first_claim (replicate 64 None) ?es ?j"
    using assms(3) by (simp add: first_claim_def Y tk)
  moreover from pin_queue[OF pin] have "q = nths ?es {j. \<not> first_claim (replicate 64 None) ?es j}"
    by simp
  ultimately have "q = nths ?es {j. \<not> first_claim (replicate 64 None) ?es j}"
    and "?j \<in> {j. \<not> first_claim (replicate 64 None) ?es j}" by simp_all
  with j have "?es ! ?j \<in> set q" by (simp add: nth_in_nths)
  with Y show ?thesis by simp
qed

lemma out_of_range_iff:
  "(\<exists>e\<in>set es. \<exists>p. preferred_index e = Some p \<and> (p < - 64 \<or> 64 \<le> p)) \<longleftrightarrow>
   \<not> (\<forall>e\<in>set es. \<forall>p. preferred_index e = Some p \<longrightarrow>
          - int (length (replicate 64 (None :: PatchFile option))) \<le> p \<and>
          p < int (length (replicate 64 (None :: PatchFile option))))"
  by (simp add: not_le not_less)

lemma allocate_False_error_iff:
  "allocate False pfs = Inl IndexError \<longleftrightarrow>
   (\<exists>e\<in>set (considered pfs). \<exists>p. preferred_index e = Some p \<and> (p < - 64 \<or> 64 \<le> p))"
proof -
  let ?pin = "pin (considered pfs) (replicate 64 None) []"
  have c: "considered pfs = take (65 - 1) (filter active pfs)" by (simp add: considered_def)
  have "allocate False pfs = Inl IndexError \<longleftrightarrow> \<not> (\<exists>r. ?pin = Inr r)"
  proof (cases ?pin)
    case (Inl e)
    then have "e = IndexError" by (rule pin_error)
    with place_loop_pin_error[of 1 pfs "replicate 64 None" "[]" e False] Inl c
    show ?thesis by (auto simp: allocate_sum)
  next
    case (Inr r)
    obtain po q where "r = (po, q)" by (cases r)
    with place_loop_False_pin[of 1 pfs "replicate 64 None" "[]" po q] Inr c
    show ?thesis by (auto simp: allocate_sum)
  qed
  then show ?thesis
    unfolding out_of_range_iff pin_ok_iff[of "considered pfs" "replicate 64 None" "[]"] .
qed

lemma allocate_error_if_out_of_range:
  assumes "\<exists>e\<in>set (considered pfs). \<exists>p. preferred_index e = Some p \<and> (p < - 64 \<or> 64 \<le> p)"
  shows "\<exists>err. allocate verbose pfs = Inl err"
proof -
  let ?pin = "pin (considered pfs) (replicate 64 None) []"
  have c: "considered pfs = take (65 - 1) (filter active pfs)" by (simp add: considered_def)
  from assms have "\<not> (\<exists>r. ?pin = Inr r)"
    unfolding out_of_range_iff pin_ok_iff[of "considered pfs" "replicate 64 None" "[]"] .
  then obtain e where "?pin = Inl e" by (cases ?pin) auto
  with place_loop_pin_error[of 1 pfs "replicate 64 None" "[]" e verbose] c
  show ?thesis by (auto simp: allocate_sum)
qed

lemma allocate_False_error: "allocate False pfs = Inl err \<Longrightarrow> err = IndexError"
  by (auto simp: allocate_sum split: sum.splits dest: place_loop_error)

lemma allocate_False_returns:
  assumes "\<forall>e\<in>set (considered pfs). \<forall>p. preferred_index e = Some p \<longrightarrow> - 64 \<le> p \<and> p < 64"
  shows "\<exists>t out. allocate False pfs = Inr (t, out)"
proof (cases "allocate False pfs")
  case (Inl err)
  then have "allocate False pfs = Inl IndexError" using allocate_False_error by blast
  with assms show ?thesis unfolding allocate_False_error_iff by force
next
  case (Inr r)
  then show ?thesis by (cases r) auto
qed

lemma two_claimants_of_5:
  assumes "active X" and "active Y" and "cell X = Some 5" and "cell Y = Some 5"
  shows "allocate verbose [X, Y] = Inr ((replicate 64 None)[5 := Some X, 0 := Some Y], [])"
proof -
  from assms(3) obtain p where p: "preferred_index X = Some p" "py_index 64 p = Inr 5"
    by (auto simp: cell_Some_iff)
  from assms(4) obtain p' where p': "preferred_index Y = Some p'" "py_index 64 p' = Inr 5"
    by (auto simp: cell_Some_iff)
  have "place_loop verbose [X, Y] (replicate 64 None) [] 1
        = Inr ((replicate 64 None)[5 := Some X], [Y], 3, [])"
    using assms(1,2) p p' by (simp add: page_size_def)
  moreover have "fill_loop [0..<64] ((replicate 64 None)[5 := Some X]) [Y]
        = ((replicate 64 None)[5 := Some X, 0 := Some Y], [])"
    by (simp add: upt_conv_Cons)
  ultimately show ?thesis by (simp add: allocate_def page_size_def)
qed

lemma three_patches:
  assumes "active A" "active B" "active C"
    and "preferred_index A = None" "preferred_index B = None" "preferred_index C = Some 60"
  shows "allocate verbose [A, B, C]
           = Inr ((replicate 64 None)[60 := Some C, 0 := Some A, 1 := Some B], [])"
proof -
  have "place_loop verbose [A, B, C] (replicate 64 None) [] 1
        = Inr ((replicate 64 None)[60 := Some C], [A, B], 4, [])"
    using assms by (simp add: page_size_def py_index_def)
  moreover have "fill_loop [0..<64] ((replicate 64 None)[60 := Some C]) [A, B]
        = ((replicate 64 None)[60 := Some C, 0 := Some A, 1 := Some B], [])"
    by (simp add: upt_conv_Cons)
  ultimately show ?thesis by (simp add: allocate_sum)
qed

text \<open>
  A preferred index from -64 to -1 claims a cell like any other: here the first entry,
  with preferred index -59, takes cell 5 and the second, which prefers 5, is queued.
\<close>

lemma negative_index_claims_cell:
  "allocate False [patch ''a.bin'' True (Some (- 59)), patch ''b.bin'' True (Some 5)]
   = Inr ((replicate 64 None)
            [5 := Some (patch ''a.bin'' True (Some (- 59))),
             0 := Some (patch ''b.bin'' True (Some 5))], [])"
  by code_simp

text \<open>
  Inactive patches: with \<open>verbose\<close> off they change neither the table nor the error,
  with \<open>verbose\<close> set the first one the loop meets raises.
\<close>

lemma allocate_False_skips_inactive:
  "map_sum id fst (allocate False pfs) = map_sum id fst (allocate False (filter active pfs))"
proof -
  let ?es = "take (65 - 1) (filter active pfs)"
  have es: "take (65 - 1) (filter active (filter active pfs)) = ?es" by simp
  show ?thesis
  proof (cases "pin ?es (replicate 64 None) []")
    case (Inl e)
    from place_loop_pin_error[OF Inl, of False]
    have "place_loop False pfs (replicate 64 None) [] 1 = Inl e" by simp
    moreover from Inl have "pin (take (65 - 1) (filter active (filter active pfs)))
        (replicate 64 None) [] = Inl e" by (simp only: es)
    from place_loop_pin_error[OF this, of False]
    have "place_loop False (filter active pfs) (replicate 64 None) [] 1 = Inl e" by simp
    ultimately show ?thesis by (simp add: allocate_sum)
  next
    case (Inr r)
    obtain po q where r: "r = (po, q)" by (cases r)
    from Inr r have "pin ?es (replicate 64 None) [] = Inr (po, q)" by simp
    from place_loop_False_pin[OF this] obtain cnt out where
      "place_loop False pfs (replicate 64 None) [] 1 = Inr (po, q, cnt, out)" by auto
    moreover from Inr r have "pin (take (65 - 1) (filter active (filter active pfs)))
        (replicate 64 None) [] = Inr (po, q)" by (simp only: es)
    from place_loop_False_pin[OF this] obtain cnt' out' where
      "place_loop False (filter active pfs) (replicate 64 None) [] 1 = Inr (po, q, cnt', out')"
      by auto
    ultimately show ?thesis by (simp add: allocate_sum)
  qed
qed

lemma allocate_verbose_inactive:
  "\<not> active pf \<Longrightarrow> allocate True (pf # rest) = Inl TypeError"
  by (simp add: allocate_sum page_size_def)

section \<open>The third loop\<close>

text \<open>
  \<open>copy_files\<close> requests one copy for each placed patch, in cell order, from the path
  of the patch; the destination carries the index of the cell.
\<close>

lemma copy_loop_sources:
  "map fst (copy_loop is po d) = map full_path (placed (map ((!) po) is))"
  by (induction "is") (auto simp: placed_Nil placed_Cons split: option.splits)

lemma copy_files_sources:
  assumes "copy_files pfs d verbose = Inr (copies, out)"
  shows "\<exists>t printed. allocate verbose pfs = Inr (t, printed) \<and>
           map fst copies = map full_path (placed t)"
proof -
  from assms obtain t printed where a: "allocate verbose pfs = Inr (t, printed)"
    and c: "copies = copy_loop [0..<64] t d"
    by (auto simp: copy_files_def page_size_def Let_def split: sum.splits)
  from allocate_mset(2)[OF a] have "map ((!) t) [0..<64] = t" by (metis map_nth)
  with c have "map fst copies = map full_path (placed t)" by (simp add: copy_loop_sources)
  with a show ?thesis by blast
qed

lemma copy_files_three_patches:
  "copy_files [patch ''a.bin'' True None, patch ''b.bin'' False None, patch ''c.bin'' True (Some 60)]
     ''/Volumes/ZOIA/to_zoia'' False
   = Inr ([(''./patches/a.bin'', ''/Volumes/ZOIA/to_zoia/000_zoia_a.bin''),
           (''./patches/c.bin'', ''/Volumes/ZOIA/to_zoia/060_zoia_c.bin'')], [])"
  by code_simp

section \<open>merge_patch_files: facts\<close>

text \<open>
  The dictionary holds, for a path, the last record of the override list with that path.
\<close>

lemma override_paths_snoc:
  "override_paths (xs @ [x]) = (override_paths xs)(full_path x \<mapsto> x)"
  by (simp add: override_paths_def)

lemma override_paths_find:
  "override_paths saved k = find (\<lambda>s. full_path s = k) (rev saved)"
proof (induction saved rule: rev_induct)
  case Nil
  then show ?case by (simp add: override_paths_def)
next
  case (snoc x xs)
  then show ?case by (simp add: override_paths_snoc)
qed

lemma merge_nth:
  "i < length fresh \<Longrightarrow>
   merge_patch_files fresh saved ! i =
     (case find (\<lambda>s. full_path s = full_path (fresh ! i)) (rev saved) of
        Some s \<Rightarrow> s | None \<Rightarrow> fresh ! i)"
  by (simp add: merge_patch_files_def get_pf_def override_paths_find)

lemma find_rev_Some:
  "find P (rev xs) = Some y \<Longrightarrow> P y \<and> y \<in> set xs"
  by (auto simp: find_Some_iff in_set_conv_nth) (metis length_rev nth_mem set_rev in_set_conv_nth)

lemma find_rev_None: "find P (rev xs) = None \<longleftrightarrow> (\<forall>x\<in>set xs. \<not> P x)"
  by (auto simp: find_None_iff)

section \<open>get_preferred_index_patches: facts\<close>

text \<open>
  The keys of the map are distinct. An index is a key exactly when it is not 0 and some
  patch prefers it; its value lists the names of the patches that prefer it, in input
  order. The index 0 is never a key.
\<close>

lemma map_of_append_names:
  "map_of (map (\<lambda>(k, v). if k = j then (k, v @ [n]) else (k, v)) m) i =
     (if i = j then map_option (\<lambda>v. v @ [n]) (map_of m j) else map_of m i)"
  by (induction m) auto

lemma keys_append_names:
  "map fst (map (\<lambda>(k, v). if k = j then (k, v @ [n]) else (k, v)) m) = map fst m"
  by (induction m) auto

lemma index_map_loop_lookup:
  "map_of (index_map_loop pfs m) i =
     (if i \<noteq> 0 \<and> (\<exists>pf\<in>set pfs. preferred_index pf = Some i)
      then Some (case_option [] id (map_of m i)
                 @ map name (filter (\<lambda>pf. preferred_index pf = Some i) pfs))
      else map_of m i)"
proof (induction pfs m rule: index_map_loop.induct)
  case (1 index_map)
  then show ?case by simp
next
  case (2 patch_file rest index_map)
  show ?case
  proof (cases "preferred_index patch_file")
    case None
    with 2 show ?thesis by simp
  next
    case (Some j)
    show ?thesis
    proof (cases "j = 0")
      case True
      with 2 Some show ?thesis by auto
    next
      case False
      let ?m = "if map_of index_map j = None then index_map @ [(j, [])] else index_map"
      let ?m' = "map (\<lambda>(k, v). if k = j then (k, v @ [name patch_file]) else (k, v)) ?m"
      have step: "index_map_loop (patch_file # rest) index_map = index_map_loop rest ?m'"
        using Some False by (simp add: Let_def)
      have m: "map_of ?m i = (if i = j \<and> map_of index_map j = None then Some [] else map_of index_map i)"
        by (auto simp: map_add_def split: option.splits)
      have m': "map_of ?m' i =
          (if i = j then Some (case_option [] id (map_of index_map j) @ [name patch_file])
           else map_of index_map i)"
        unfolding map_of_append_names
        by (auto simp: map_add_def split: option.splits)
      from "2.IH"(3)[OF Some False refl] have IH: "map_of (index_map_loop rest ?m') i =
         (if i \<noteq> 0 \<and> (\<exists>pf\<in>set rest. preferred_index pf = Some i)
          then Some (case_option [] id (map_of ?m' i)
                 @ map name (filter (\<lambda>pf. preferred_index pf = Some i) rest))
          else map_of ?m' i)" .
      show ?thesis
        unfolding step IH m' using Some False by auto
    qed
  qed
qed

lemma index_map_lookup:
  "map_of (get_preferred_index_patches pfs) i =
     (if i \<noteq> 0 \<and> (\<exists>pf\<in>set pfs. preferred_index pf = Some i)
      then Some (map name (filter (\<lambda>pf. preferred_index pf = Some i) pfs))
      else None)"
  by (simp add: get_preferred_index_patches_def index_map_loop_lookup)

lemma index_map_loop_keys:
  "distinct (map fst m) \<Longrightarrow> distinct (map fst (index_map_loop pfs m))"
proof (induction pfs m rule: index_map_loop.induct)
  case (1 index_map)
  then show ?case by simp
next
  case (2 patch_file rest index_map)
  show ?case
  proof (cases "preferred_index patch_file")
    case None
    with 2 show ?thesis by simp
  next
    case (Some j)
    show ?thesis
    proof (cases "j = 0")
      case True
      with 2 Some show ?thesis by simp
    next
      case False
      let ?m = "if map_of index_map j = None then index_map @ [(j, [])] else index_map"
      have "distinct (map fst ?m)"
        using "2.prems" by (auto simp: map_of_eq_None_iff)
      then have "distinct (map fst (map (\<lambda>(k, v). if k = j then (k, v @ [name patch_file]) else (k, v)) ?m))"
        by (simp only: keys_append_names)
      from "2.IH"(3)[OF Some False refl this] show ?thesis
        using Some False by (simp add: Let_def)
    qed
  qed
qed

section \<open>The configuration file: facts\<close>

lemma sort_keys_config:
  "sort_keys (JObject (config pf)) =
     JObject [(''active'', JBool (active pf)),
              (''file_name'', JString (file_name pf)),
              (''full_path'', JString (full_path pf)),
              (''name'', JString (name pf)),
              (''preferred_index'', (case preferred_index pf of None \<Rightarrow> JNull | Some i \<Rightarrow> JInt i))]"
  by (cases "preferred_index pf") (simp_all add: config_def less_eq_char_def less_char_def)

lemma PatchFile_init_config:
  "PatchFile_init
     [(''active'', JBool (active pf)),
      (''file_name'', JString (file_name pf)),
      (''full_path'', JString (full_path pf)),
      (''name'', JString (name pf)),
      (''preferred_index'', (case preferred_index pf of None \<Rightarrow> JNull | Some i \<Rightarrow> JInt i))]
   = Some (Inr pf)"
  by (cases "preferred_index pf") (simp_all add: PatchFile_init_def field_names_def)

lemma init_all_config:
  "init_all (map (\<lambda>pf. sort_keys (JObject (config pf))) pfs) = Some (Inr pfs)"
proof (induction pfs)
  case Nil
  then show ?case by simp
next
  case (Cons pf pfs)
  then show ?case
    by (simp only: list.map sort_keys_config init_all.simps json.case PatchFile_init_config
          option.case sum.case)
qed

lemma written_document:
  "sort_keys (JArray (map (\<lambda>pf. JObject (config pf)) pfs))
     = JArray (map (\<lambda>pf. sort_keys (JObject (config pf))) pfs)"
  by (simp only: sort_keys.simps map_map comp_def)

section \<open>The claims\<close>

text \<open>
  Claim C1. For every list of entries, every slot \<open>k\<close> from 0 to 63 (0 included) and
  every active entry \<open>E\<close> with preferred index \<open>k\<close> that is among the first 64 active
  entries: if no earlier active entry claims cell \<open>k\<close>, the table the allocation returns
  holds \<open>E\<close> at cell \<open>k\<close>. The list is \<open>pre @ E # post\<close>; an entry claims the cell
  that \<open>patch_order[pf.preferred_index]\<close> denotes (\<open>cell\<close>): for a preferred index from 0
  to 63 the index itself (lemma \<open>cell_in_range\<close>), for one from -64 to -1 the cell counted
  from the end (lemma \<open>negative_index_claims_cell\<close>). The test of the source is
  \<open>is not None\<close>, so the preferred index 0 is a preference like any other.
\<close>

theorem C1_pinned_entry_holds_its_slot:
  assumes "allocate verbose (pre @ E # post) = Inr (table, out)"
    and "active E" and "preferred_index E = Some (int k)" and "k < 64"
    and "length (filter active pre) < 64"
    and "\<forall>x\<in>set pre. active x \<longrightarrow> cell x \<noteq> Some k"
  shows "table ! k = Some E"
proof -
  have "cell E = Some k" using assms(3,4) by (rule cell_int)
  with assms(1,2) show ?thesis using assms(5,6) by (rule claimed_cell_held)
qed

theorem C1_witness_slot_0:
  "allocate False
     ([patch ''a.bin'' True None] @ patch ''b.bin'' True (Some 0) # [patch ''c.bin'' True (Some 0)])
   = Inr ((replicate 64 None)
            [0 := Some (patch ''b.bin'' True (Some 0)),
             1 := Some (patch ''a.bin'' True None),
             2 := Some (patch ''c.bin'' True (Some 0))], [])
   \<and> (replicate 64 None)
            [0 := Some (patch ''b.bin'' True (Some 0)),
             1 := Some (patch ''a.bin'' True None),
             2 := Some (patch ''c.bin'' True (Some 0))] ! 0
     = Some (patch ''b.bin'' True (Some 0))"
proof -
  have run: "allocate False
     ([patch ''a.bin'' True None] @ patch ''b.bin'' True (Some 0) # [patch ''c.bin'' True (Some 0)])
   = Inr ((replicate 64 None)
            [0 := Some (patch ''b.bin'' True (Some 0)),
             1 := Some (patch ''a.bin'' True None),
             2 := Some (patch ''c.bin'' True (Some 0))], [])"
    by code_simp
  have "active (patch ''b.bin'' True (Some 0))"
    and "preferred_index (patch ''b.bin'' True (Some 0)) = Some (int 0)"
    and "\<forall>x\<in>set [patch ''a.bin'' True None]. active x \<longrightarrow> cell x \<noteq> Some 0"
    by (simp_all add: patch_def cell_def)
  with run show ?thesis
    using C1_pinned_entry_holds_its_slot[OF run, of 0] by simp
qed

text \<open>
  Claim C2, as amended. When two active entries \<open>X\<close> (the earlier) and \<open>Y\<close> claim the same
  cell \<open>c\<close>, no active entry before \<open>X\<close> claims it, and both are among the first 64
  active entries, then \<open>X\<close> holds cell \<open>c\<close> after the first loop and in the returned
  table, and \<open>Y\<close> is appended to the queue \<open>unordered_patches\<close> and ends in some cell.
  For the input \<open>[X, Y]\<close> with both claiming cell 5, \<open>X\<close> holds cell 5 and \<open>Y\<close> cell 0.
  Without the bound of 64 the claim fails: the counterexample below has 64 active
  entries before \<open>X\<close>, the first loop stops before it reaches \<open>X\<close>, and cell 5 holds the
  sixth entry.
\<close>

theorem C2_earliest_claimant_wins:
  assumes "place_loop verbose (pre @ X # mid @ Y # post) (replicate 64 None) [] 1
             = Inr (po, q, cnt, out)"
    and "active X" and "active Y" and "cell X = Some c" and "cell Y = Some c"
    and "\<forall>x\<in>set pre. active x \<longrightarrow> cell x \<noteq> Some c"
    and "length (filter active (pre @ X # mid)) < 64"
  shows "po ! c = Some X \<and> Y \<in> set q \<and>
     (\<exists>t. allocate verbose (pre @ X # mid @ Y # post) = Inr (t, out) \<and>
           t ! c = Some X \<and> Y \<in> set (placed t)) \<and>
     (pre = [] \<and> mid = [] \<and> post = [] \<and> c = 5 \<longrightarrow>
        allocate verbose [X, Y] = Inr ((replicate 64 None)[5 := Some X, 0 := Some Y], []))"
proof -
  let ?pfs = "pre @ X # mid @ Y # post"
  from assms(1) have pin: "pin (considered ?pfs) (replicate 64 None) [] = Inr (po, q)"
    using place_loop_pin[OF assms(1)] by (simp add: considered_def)
  from assms(4) have c: "c < 64"
    by (auto simp: cell_Some_iff dest: py_index_less)
  from assms(7) have lpre: "length (filter active pre) < 64" by simp
  have "find (\<lambda>e. cell e = Some c) (considered ?pfs) = Some X"
    unfolding considered_split[OF assms(2) lpre]
    using assms(4,6) by (intro find_first) auto
  with pin_cells[OF pin _ c] c have X: "po ! c = Some X" by simp
  have "Y \<in> set q"
  proof (rule later_claimant_queued)
    show "pin (considered ((pre @ X # mid) @ Y # post)) (replicate 64 None) [] = Inr (po, q)"
      using pin by simp
    show "\<exists>x\<in>set (pre @ X # mid). active x \<and> cell x = Some c"
      using assms(2,4) by auto
  qed (use assms in auto)
  moreover
  from allocate_cells[OF assms(1)] obtain t where
    t: "allocate verbose ?pfs = Inr (t, out)"
    and cells: "\<forall>c<64. t ! c =
        (if po ! c = None \<and> empties po 0 c < length q then Some (q ! empties po 0 c)
         else po ! c)" by blast
  from cells c X have "t ! c = Some X" by simp
  moreover have "Y \<in> set (placed t)"
  proof -
    have "Y \<in> set (considered ((pre @ X # mid) @ Y # post))"
      unfolding considered_split[OF assms(3,7)] by simp
    then have "Y \<in># mset (considered ?pfs)" by simp
    with allocate_mset(1)[OF t] show ?thesis by (metis set_mset_mset)
  qed
  moreover have "allocate verbose [X, Y] = Inr ((replicate 64 None)[5 := Some X, 0 := Some Y], [])"
    if "c = 5"
    using assms(2,3,4,5) that by (intro two_claimants_of_5) simp_all
  ultimately show ?thesis using X t by blast
qed

theorem C2_witness_two_claimants:
  "place_loop False ([] @ patch ''x.bin'' True (Some 5) # [] @ patch ''y.bin'' True (Some 5) # [])
      (replicate 64 None) [] 1
     = Inr ((replicate 64 None)[5 := Some (patch ''x.bin'' True (Some 5))],
            [patch ''y.bin'' True (Some 5)], 3, [])
   \<and> (replicate 64 None)[5 := Some (patch ''x.bin'' True (Some 5))] ! 5
       = Some (patch ''x.bin'' True (Some 5))
   \<and> patch ''y.bin'' True (Some 5) \<in> set [patch ''y.bin'' True (Some 5)]
   \<and> allocate False [patch ''x.bin'' True (Some 5), patch ''y.bin'' True (Some 5)]
       = Inr ((replicate 64 None)
                [5 := Some (patch ''x.bin'' True (Some 5)),
                 0 := Some (patch ''y.bin'' True (Some 5))], [])"
proof -
  let ?X = "patch ''x.bin'' True (Some 5)" and ?Y = "patch ''y.bin'' True (Some 5)"
  have run: "place_loop False ([] @ ?X # [] @ ?Y # []) (replicate 64 None) [] 1
     = Inr ((replicate 64 None)[5 := Some ?X], [?Y], 3, [])"
    by code_simp
  have h: "active ?X" "active ?Y" "cell ?X = Some 5" "cell ?Y = Some 5"
    "\<forall>x\<in>set []. active x \<longrightarrow> cell x \<noteq> Some 5"
    "length (filter active ([] @ ?X # [])) < 64"
    by (simp_all add: patch_def cell_def py_index_def)
  from C2_earliest_claimant_wins[OF run h] run show ?thesis by simp
qed

theorem C2_counterexample_beyond_capacity:
  "active (patch ''x.bin'' True (Some 5)) \<and> active (patch ''y.bin'' True (Some 5))
   \<and> preferred_index (patch ''x.bin'' True (Some 5)) = Some 5
   \<and> preferred_index (patch ''y.bin'' True (Some 5)) = Some 5
   \<and> allocate False
       (plain_patches 64 @ [patch ''x.bin'' True (Some 5), patch ''y.bin'' True (Some 5)])
     = Inr (map Some (plain_patches 64), [hit_limit_msg])
   \<and> map Some (plain_patches 64) ! 5 = Some (patch ''5.bin'' True None)
   \<and> patch ''5.bin'' True None \<noteq> patch ''x.bin'' True (Some 5)"
  by code_simp

text \<open>
  Claim C3. Whatever the length of the input, the allocation with \<open>verbose\<close> off returns
  when the preferred indices of the first 64 active entries are list indices of the
  table, and a table the allocation returns has 64 cells, so at most 64 entries are
  placed; the entries placed are exactly the first 64 active entries of the input (as a
  multiset: each as often as it occurs among them). With more than 64 active entries the
  line \<open>Hit patch limit of 64. ...\<close> is printed, with fewer than 64 nothing is. The
  witness is the input of 65 active entries: the first 64 are placed, the 65th is not,
  and the line is printed.
\<close>

theorem C3_capacity:
  "((\<forall>e\<in>set (considered pfs). \<forall>p. preferred_index e = Some p \<longrightarrow> - 64 \<le> p \<and> p < 64) \<longrightarrow>
      (\<exists>t printed. allocate False pfs = Inr (t, printed))) \<and>
   (allocate verbose pfs = Inr (table, out) \<longrightarrow>
      length table = 64 \<and> length (placed table) \<le> 64 \<and>
      mset (placed table) = mset (take 64 (filter active pfs)) \<and>
      (64 < length (filter active pfs) \<longrightarrow> out = [hit_limit_msg]) \<and>
      (length (filter active pfs) < 64 \<longrightarrow> out = []))"
proof -
  have "length table = 64 \<and> length (placed table) \<le> 64 \<and>
      mset (placed table) = mset (take 64 (filter active pfs)) \<and>
      (64 < length (filter active pfs) \<longrightarrow> out = [hit_limit_msg]) \<and>
      (length (filter active pfs) < 64 \<longrightarrow> out = [])"
    if run: "allocate verbose pfs = Inr (table, out)"
  proof -
    from allocate_mset[OF run]
    have ms: "mset (placed table) = mset (take 64 (filter active pfs))"
      and len: "length table = 64"
      by (simp_all add: considered_def)
    from ms have "size (mset (placed table)) = size (mset (take 64 (filter active pfs)))"
      by simp
    then have le: "length (placed table) \<le> 64" by simp
    from run obtain po q cnt where
      "place_loop verbose pfs (replicate 64 None) [] 1 = Inr (po, q, cnt, out)"
      by (rule allocate_run)
    from place_loop_printed[OF this]
    have "(64 < length (filter active pfs) \<longrightarrow> out = [hit_limit_msg]) \<and>
          (length (filter active pfs) < 64 \<longrightarrow> out = [])" by simp
    with ms len le show ?thesis by simp
  qed
  with allocate_False_returns[of pfs] show ?thesis by blast
qed

theorem C3_witness_65_entries:
  "allocate False (plain_patches 65) = Inr (map Some (plain_patches 64), [hit_limit_msg])
   \<and> length (filter active (plain_patches 65)) = 65
   \<and> length (placed (map Some (plain_patches 64))) = 64
   \<and> mset (placed (map Some (plain_patches 64))) = mset (take 64 (filter active (plain_patches 65)))
   \<and> plain_patches 65 ! 64 \<notin> set (placed (map Some (plain_patches 64)))"
proof -
  have run: "allocate False (plain_patches 65) = Inr (map Some (plain_patches 64), [hit_limit_msg])"
    by code_simp
  have l: "length (filter active (plain_patches 65)) = 65" by code_simp
  have p: "length (placed (map Some (plain_patches 64))) = 64" by code_simp
  have d: "plain_patches 65 ! 64 \<notin> set (placed (map Some (plain_patches 64)))" by code_simp
  from C3_capacity[of "plain_patches 65" False "map Some (plain_patches 64)" "[hit_limit_msg]"]
    run l p d show ?thesis by simp
qed

text \<open>
  Claim C4. After the first loop has placed the pins, the queue \<open>unordered_patches\<close> holds,
  in input order, the considered entries that are not the first to claim their cell
  (those without a preferred index and those whose cell was taken). The second loop
  visits the cells 0 to 63 in ascending order: cell \<open>c\<close>, when empty after the first loop,
  receives the queue entry whose position is the number of empty cells below \<open>c\<close>, as long
  as the queue has one; every other cell is left as it was. The queue always fits in the
  empty cells. For \<open>A\<close>, \<open>B\<close> without a preference and \<open>C\<close> preferring 60, \<open>C\<close> holds cell 60,
  \<open>A\<close> cell 0 and \<open>B\<close> cell 1.
\<close>

theorem C4_fifo_fill:
  assumes "place_loop verbose pfs (replicate 64 None) [] 1 = Inr (po, q, cnt, out)"
  shows "q = nths (considered pfs) {j. \<not> first_claim (replicate 64 None) (considered pfs) j} \<and>
     length q \<le> empties po 0 64 \<and>
     (\<exists>t. allocate verbose pfs = Inr (t, out) \<and> length t = 64 \<and>
        (\<forall>c<64. t ! c =
           (if po ! c = None \<and> empties po 0 c < length q then Some (q ! empties po 0 c)
            else po ! c))) \<and>
     (\<forall>A B C. pfs = [A, B, C] \<and> active A \<and> active B \<and> active C \<and>
        preferred_index A = None \<and> preferred_index B = None \<and> preferred_index C = Some 60 \<longrightarrow>
        allocate verbose pfs
          = Inr ((replicate 64 None)[60 := Some C, 0 := Some A, 1 := Some B], []))"
proof -
  have pin: "pin (considered pfs) (replicate 64 None) [] = Inr (po, q)"
    using place_loop_pin[OF assms] by (simp add: considered_def)
  from pin_queue[OF pin]
  have q: "q = nths (considered pfs) {j. \<not> first_claim (replicate 64 None) (considered pfs) j}"
    by simp
  from pin_length[OF pin] have len: "length po = 64" by simp
  from pin_mset[OF pin] have "mset (placed po) + mset q = mset (considered pfs)"
    by (simp add: placed_replicate)
  then have "size (mset (placed po) + mset q) = size (mset (considered pfs))" by simp
  then have "length (placed po) + length q \<le> 64" by (simp add: considered_def)
  moreover have "empties po 0 64 + length (placed po) = 64"
    using empties_placed[of po] len by simp
  ultimately have enough: "length q \<le> empties po 0 64" by arith
  from q enough allocate_cells[OF assms] three_patches[of _ _ _ verbose]
  show ?thesis by blast
qed

theorem C4_witness_three_patches:
  "place_loop False [patch ''a.bin'' True None, patch ''b.bin'' True None, patch ''c.bin'' True (Some 60)]
     (replicate 64 None) [] 1
     = Inr ((replicate 64 None)[60 := Some (patch ''c.bin'' True (Some 60))],
            [patch ''a.bin'' True None, patch ''b.bin'' True None], 4, [])
   \<and> allocate False [patch ''a.bin'' True None, patch ''b.bin'' True None, patch ''c.bin'' True (Some 60)]
     = Inr ((replicate 64 None)
              [60 := Some (patch ''c.bin'' True (Some 60)),
               0 := Some (patch ''a.bin'' True None),
               1 := Some (patch ''b.bin'' True None)], [])"
proof -
  let ?A = "patch ''a.bin'' True None" and ?B = "patch ''b.bin'' True None"
    and ?C = "patch ''c.bin'' True (Some 60)"
  have run: "place_loop False [?A, ?B, ?C] (replicate 64 None) [] 1
     = Inr ((replicate 64 None)[60 := Some ?C], [?A, ?B], 4, [])"
    by code_simp
  have h: "active ?A" "active ?B" "active ?C" "preferred_index ?A = None"
    "preferred_index ?B = None" "preferred_index ?C = Some 60"
    by (simp_all add: patch_def)
  from C4_fifo_fill[OF run] h run show ?thesis by blast
qed

text \<open>
  Claim C5. \<open>merge_patch_files fresh saved\<close> has the length of \<open>fresh\<close>; its \<open>i\<close>-th record
  is the saved record with the path of the \<open>i\<close>-th fresh record when \<open>saved\<close> has one (the
  last such record of \<open>saved\<close>, which is the only one when the saved paths are distinct),
  and the \<open>i\<close>-th fresh record itself otherwise; in both cases it has the path of the
  \<open>i\<close>-th fresh record. A saved record whose path no fresh record has is not in the
  result.
\<close>

theorem C5_merge_is_override:
  "length (merge_patch_files fresh saved) = length fresh \<and>
   (\<forall>i<length fresh.
      merge_patch_files fresh saved ! i =
        (case find (\<lambda>s. full_path s = full_path (fresh ! i)) (rev saved) of
           Some s \<Rightarrow> s | None \<Rightarrow> fresh ! i) \<and>
      full_path (merge_patch_files fresh saved ! i) = full_path (fresh ! i) \<and>
      ((\<forall>s\<in>set saved. full_path s \<noteq> full_path (fresh ! i)) \<longrightarrow>
         merge_patch_files fresh saved ! i = fresh ! i) \<and>
      ((\<exists>s\<in>set saved. full_path s = full_path (fresh ! i)) \<longrightarrow>
         merge_patch_files fresh saved ! i \<in> set saved) \<and>
      (distinct (map full_path saved) \<longrightarrow>
         (\<forall>s\<in>set saved. full_path s = full_path (fresh ! i) \<longrightarrow>
            merge_patch_files fresh saved ! i = s))) \<and>
   (\<forall>s\<in>set saved. full_path s \<notin> full_path ` set fresh \<longrightarrow>
      s \<notin> set (merge_patch_files fresh saved))"
proof -
  let ?m = "merge_patch_files fresh saved"
  have len: "length ?m = length fresh" by (simp add: merge_patch_files_def)
  have each: "?m ! i =
        (case find (\<lambda>s. full_path s = full_path (fresh ! i)) (rev saved) of
           Some s \<Rightarrow> s | None \<Rightarrow> fresh ! i) \<and>
      full_path (?m ! i) = full_path (fresh ! i) \<and>
      ((\<forall>s\<in>set saved. full_path s \<noteq> full_path (fresh ! i)) \<longrightarrow> ?m ! i = fresh ! i) \<and>
      ((\<exists>s\<in>set saved. full_path s = full_path (fresh ! i)) \<longrightarrow> ?m ! i \<in> set saved) \<and>
      (distinct (map full_path saved) \<longrightarrow>
         (\<forall>s\<in>set saved. full_path s = full_path (fresh ! i) \<longrightarrow> ?m ! i = s))"
    if i: "i < length fresh" for i
  proof (cases "find (\<lambda>s. full_path s = full_path (fresh ! i)) (rev saved)")
    case None
    then have "\<forall>s\<in>set saved. full_path s \<noteq> full_path (fresh ! i)"
      by (simp add: find_rev_None)
    with None show ?thesis by (simp add: merge_nth[OF i])
  next
    case (Some y)
    then have y: "full_path y = full_path (fresh ! i)" "y \<in> set saved"
      using find_rev_Some[OF Some] by simp_all
    have m: "?m ! i = y" using Some by (simp add: merge_nth[OF i])
    have "s = y" if "distinct (map full_path saved)" "s \<in> set saved"
      "full_path s = full_path (fresh ! i)" for s
      using that y by (auto simp: distinct_map inj_on_def)
    with m y Some show ?thesis by (auto simp: merge_nth[OF i])
  qed
  have only: "s \<notin> set ?m" if "s \<in> set saved" "full_path s \<notin> full_path ` set fresh" for s
  proof
    assume "s \<in> set ?m"
    then obtain i where i: "i < length fresh" "?m ! i = s"
      using len by (auto simp: in_set_conv_nth)
    from each[OF i(1)] have "full_path (?m ! i) = full_path (fresh ! i)" by blast
    with i have "full_path s = full_path (fresh ! i)" by simp
    with i that show False by (metis image_eqI nth_mem)
  qed
  from len each only show ?thesis by blast
qed

theorem C5_witness:
  "merge_patch_files
     [patch ''a.bin'' True None, patch ''b.bin'' True None]
     [patch ''b.bin'' False (Some 60), patch ''z.bin'' True (Some 3)]
   = [patch ''a.bin'' True None, patch ''b.bin'' False (Some 60)]
   \<and> length (merge_patch_files
     [patch ''a.bin'' True None, patch ''b.bin'' True None]
     [patch ''b.bin'' False (Some 60), patch ''z.bin'' True (Some 3)]) = 2
   \<and> patch ''z.bin'' True (Some 3) \<notin> set (merge_patch_files
     [patch ''a.bin'' True None, patch ''b.bin'' True None]
     [patch ''b.bin'' False (Some 60), patch ''z.bin'' True (Some 3)])"
proof -
  let ?fresh = "[patch ''a.bin'' True None, patch ''b.bin'' True None]"
  let ?saved = "[patch ''b.bin'' False (Some 60), patch ''z.bin'' True (Some 3)]"
  note C = C5_merge_is_override[of ?fresh ?saved]
  have l: "length (merge_patch_files ?fresh ?saved) = 2" using C by simp
  have z: "patch ''z.bin'' True (Some 3) \<notin> set (merge_patch_files ?fresh ?saved)"
  proof -
    have "patch ''z.bin'' True (Some 3) \<in> set ?saved" by simp
    moreover have "full_path (patch ''z.bin'' True (Some 3)) \<notin> full_path ` set ?fresh"
      by (simp add: patch_def)
    ultimately show ?thesis using C by blast
  qed
  have "merge_patch_files ?fresh ?saved = [patch ''a.bin'' True None, patch ''b.bin'' False (Some 60)]"
    by (simp add: merge_patch_files_def get_pf_def override_paths_def patch_def)
  with l z show ?thesis by simp
qed

text \<open>
  Claim C6, as amended. With \<open>verbose\<close> off the allocation raises \<open>IndexError\<close> exactly when
  one of the first 64 active entries has a preferred index below -64 or above 63, and
  with either setting such an entry makes the allocation raise. A preferred index \<open>p\<close>
  from -64 to -1 is not rejected: list indexing counts it from the end, so the entry is a
  pin on cell \<open>p + 64\<close>. The counterexample is the entry with preferred index -1, which
  lands in cell 63 without any error.
\<close>

theorem C6_out_of_range_index:
  "(allocate False pfs = Inl IndexError \<longleftrightarrow>
      (\<exists>e\<in>set (considered pfs). \<exists>p. preferred_index e = Some p \<and> (p < - 64 \<or> 64 \<le> p))) \<and>
   ((\<exists>e\<in>set (considered pfs). \<exists>p. preferred_index e = Some p \<and> (p < - 64 \<or> 64 \<le> p)) \<longrightarrow>
      (\<exists>err. allocate verbose pfs = Inl err)) \<and>
   (allocate verbose (pre @ E # post) = Inr (table, out) \<and> active E \<and>
      preferred_index E = Some p \<and> - 64 \<le> p \<and> p < 0 \<and>
      length (filter active pre) < 64 \<and>
      (\<forall>x\<in>set pre. active x \<longrightarrow> cell x \<noteq> Some (nat (p + 64))) \<longrightarrow>
      table ! nat (p + 64) = Some E)"
proof -
  have "table ! nat (p + 64) = Some E"
    if run: "allocate verbose (pre @ E # post) = Inr (table, out)" and a: "active E"
      and p: "preferred_index E = Some p" "- 64 \<le> p" "p < 0"
      and l: "length (filter active pre) < 64"
      and n: "\<forall>x\<in>set pre. active x \<longrightarrow> cell x \<noteq> Some (nat (p + 64))"
  proof -
    have "cell E = Some (nat (p + 64))" using p by (simp add: cell_def py_index_def add.commute)
    with run a show ?thesis using l n by (rule claimed_cell_held)
  qed
  with allocate_False_error_iff[of pfs] allocate_error_if_out_of_range[of pfs verbose]
  show ?thesis by blast
qed

theorem C6_witness:
  "allocate False [patch ''a.bin'' True (Some 64)] = Inl IndexError
   \<and> allocate True [patch ''a.bin'' True (Some 64)] = Inl IndexError
   \<and> allocate False ([] @ patch ''b.bin'' True (Some (- 64)) # [])
       = Inr ((replicate 64 None)[0 := Some (patch ''b.bin'' True (Some (- 64)))], [])
   \<and> (replicate 64 None)[0 := Some (patch ''b.bin'' True (Some (- 64)))] ! nat (- 64 + 64)
       = Some (patch ''b.bin'' True (Some (- 64)))"
proof -
  let ?bad = "patch ''a.bin'' True (Some 64)" and ?neg = "patch ''b.bin'' True (Some (- 64))"
  have bad: "\<exists>e\<in>set (considered [?bad]). \<exists>p. preferred_index e = Some p \<and> (p < - 64 \<or> 64 \<le> p)"
    by (simp add: considered_def patch_def)
  have 1: "allocate False [?bad] = Inl IndexError"
    using C6_out_of_range_index[of "[?bad]"] bad by blast
  have 2: "allocate True [?bad] = Inl IndexError" by code_simp
  have run: "allocate False ([] @ ?neg # []) = Inr ((replicate 64 None)[0 := Some ?neg], [])"
    by code_simp
  have h: "active ?neg" "preferred_index ?neg = Some (- 64)" by (simp_all add: patch_def)
  have 3: "(replicate 64 None)[0 := Some ?neg] ! nat (- 64 + 64) = Some ?neg"
    using C6_out_of_range_index[where verbose = False and pre = "[]" and E = ?neg
        and post = "[]" and p = "- 64"] run h by simp
  from 1 2 run 3 show ?thesis by blast
qed

theorem C6_counterexample_negative_index:
  "active (patch ''a.bin'' True (Some (- 1)))
   \<and> preferred_index (patch ''a.bin'' True (Some (- 1))) = Some (- 1)
   \<and> allocate False [patch ''a.bin'' True (Some (- 1))]
       = Inr ((replicate 64 None)[63 := Some (patch ''a.bin'' True (Some (- 1)))], [])
   \<and> allocate True [patch ''a.bin'' True (Some (- 1))]
       = Inr ((replicate 64 None)[63 := Some (patch ''a.bin'' True (Some (- 1)))], [])"
  by code_simp

text \<open>
  Claim C7 at its failing input. With \<open>verbose\<close> set, the line printed for an inactive
  entry evaluates \<open>pf['name']\<close> on a dataclass instance, which raises \<open>TypeError\<close>: the
  allocation stops at the first inactive entry instead of skipping it (for any input
  that starts with one: lemma \<open>allocate_verbose_inactive\<close>). With \<open>verbose\<close> off the same
  input skips the entry and places the next one (in general: lemma
  \<open>allocate_False_skips_inactive\<close>).
\<close>

theorem C7_verbose_skip_raises:
  "\<not> active (patch ''a.bin'' False None)
   \<and> allocate True [patch ''a.bin'' False None, patch ''b.bin'' True None] = Inl TypeError
   \<and> allocate False [patch ''a.bin'' False None, patch ''b.bin'' True None]
       = Inr ((replicate 64 None)[0 := Some (patch ''b.bin'' True None)], [])"
  by code_simp

text \<open>
  Claim C8 at its failing input. \<open>get_preferred_index_patches\<close> tests the preferred index
  for truthiness, so an entry with preferred index 0 is left out of the map and of the
  report, while \<open>copy_files\<close> (which tests \<open>is not None\<close>) pins the same entry to cell 0.
  A preferred index 1 is reported (in general: lemma \<open>index_map_lookup\<close>).
\<close>

theorem C8_zero_preference_not_reported:
  "preferred_index (patch ''a.bin'' True (Some 0)) = Some 0
   \<and> get_preferred_index_patches [patch ''a.bin'' True (Some 0)] = []
   \<and> config_stats [patch ''a.bin'' True (Some 0)] = (1, 1, 0, [])
   \<and> get_preferred_index_patches [patch ''a.bin'' True (Some 1)] = [(1, [''a.bin''])]
   \<and> allocate False [patch ''a.bin'' True (Some 0)]
       = Inr ((replicate 64 None)[0 := Some (patch ''a.bin'' True (Some 0))], [])"
  by code_simp

text \<open>
  Claim C9. Reading back the file \<open>create_config\<close> wrote for a list of records gives the
  same list: the same records in the same order, equal in all five fields. The keys of
  each object are written in sorted order and read back by name.
\<close>

theorem C9_config_round_trip:
  "get_patch_files_from_config path (fst (create_config pfs path fs)) = Some (Inr pfs)"
proof -
  have "fst (create_config pfs path fs) path
          = Some (Document (JArray (map (\<lambda>pf. sort_keys (JObject (config pf))) pfs)))"
    by (simp only: create_config_def fst_conv fun_upd_same written_document)
  then show ?thesis
    by (simp only: get_patch_files_from_config_def option.case file_content.case json.case
          init_all_config sum.case)
qed

theorem C9_witness:
  "get_patch_files_from_config ''zoia_patches.conf''
     (fst (create_config [patch ''a.bin'' True None, patch ''b.bin'' False (Some 60)]
             ''zoia_patches.conf'' Map.empty))
   = Some (Inr [patch ''a.bin'' True None, patch ''b.bin'' False (Some 60)])"
  by (rule C9_config_round_trip)

text \<open>
  Claim C10. For a list of entries whose preferred indices all lie in 0..63, the
  allocation with \<open>verbose\<close> off returns a table, and in every table the allocation returns
  each filled cell holds an active entry of the input, the placed entries form a
  sub-multiset of the input (no entry is placed more often than it occurs), and when the
  input has no repeated entry, no two cells hold the same entry.
\<close>

theorem C10_no_fabrication:
  assumes "\<forall>e\<in>set pfs. \<forall>p. preferred_index e = Some p \<longrightarrow> 0 \<le> p \<and> p < 64"
  shows "(\<exists>t out. allocate False pfs = Inr (t, out)) \<and>
     (\<forall>t out. allocate verbose pfs = Inr (t, out) \<longrightarrow>
        (\<forall>c<length t. \<forall>e. t ! c = Some e \<longrightarrow> active e \<and> e \<in> set pfs) \<and>
        mset (placed t) \<subseteq># mset pfs \<and>
        (distinct pfs \<longrightarrow>
           distinct (placed t) \<and>
           (\<forall>c<length t. \<forall>c'<length t. c \<noteq> c' \<and> t ! c \<noteq> None \<longrightarrow> t ! c \<noteq> t ! c')))"
proof -
  have "\<forall>e\<in>set (considered pfs). \<forall>p. preferred_index e = Some p \<longrightarrow> - 64 \<le> p \<and> p < 64"
    using assms by (force dest: set_considered)
  then have ret: "\<exists>t out. allocate False pfs = Inr (t, out)" by (rule allocate_False_returns)
  have "(\<forall>c<length t. \<forall>e. t ! c = Some e \<longrightarrow> active e \<and> e \<in> set pfs) \<and>
        mset (placed t) \<subseteq># mset pfs \<and>
        (distinct pfs \<longrightarrow>
           distinct (placed t) \<and>
           (\<forall>c<length t. \<forall>c'<length t. c \<noteq> c' \<and> t ! c \<noteq> None \<longrightarrow> t ! c \<noteq> t ! c'))"
    if run: "allocate verbose pfs = Inr (t, out)" for t out
  proof -
    from allocate_mset(1)[OF run] have ms: "mset (placed t) = mset (considered pfs)" .
    then have st: "set (placed t) = set (considered pfs)" by (rule mset_eq_setD)
    have a: "active e \<and> e \<in> set pfs" if "c < length t" "t ! c = Some e" for c e
      using nth_placed[OF that] st set_considered by blast
    have b: "mset (placed t) \<subseteq># mset pfs" using ms mset_considered_subset by simp
    have c: "distinct (placed t)" if "distinct pfs"
    proof -
      from that have "distinct (considered pfs)" by (simp add: considered_def)
      with ms show ?thesis by (metis mset_eq_imp_distinct_iff)
    qed
    from a b c distinct_placed_cells[of t] show ?thesis by blast
  qed
  with ret show ?thesis by blast
qed

theorem C10_witness:
  "allocate False [patch ''a.bin'' True None, patch ''b.bin'' False (Some 3), patch ''c.bin'' True (Some 60),
      patch ''d.bin'' True (Some 60)]
     = Inr ((replicate 64 None)
              [60 := Some (patch ''c.bin'' True (Some 60)),
               0 := Some (patch ''a.bin'' True None),
               1 := Some (patch ''d.bin'' True (Some 60))], [])
   \<and> distinct (placed ((replicate 64 None)
              [60 := Some (patch ''c.bin'' True (Some 60)),
               0 := Some (patch ''a.bin'' True None),
               1 := Some (patch ''d.bin'' True (Some 60))]))
   \<and> mset (placed ((replicate 64 None)
              [60 := Some (patch ''c.bin'' True (Some 60)),
               0 := Some (patch ''a.bin'' True None),
               1 := Some (patch ''d.bin'' True (Some 60))]))
      \<subseteq># mset [patch ''a.bin'' True None, patch ''b.bin'' False (Some 3), patch ''c.bin'' True (Some 60),
      patch ''d.bin'' True (Some 60)]"
proof -
  let ?pfs = "[patch ''a.bin'' True None, patch ''b.bin'' False (Some 3), patch ''c.bin'' True (Some 60),
      patch ''d.bin'' True (Some 60)]"
  let ?t = "(replicate 64 None)
              [60 := Some (patch ''c.bin'' True (Some 60)),
               0 := Some (patch ''a.bin'' True None),
               1 := Some (patch ''d.bin'' True (Some 60))]"
  have run: "allocate False ?pfs = Inr (?t, [])" by code_simp
  have h: "\<forall>e\<in>set ?pfs. \<forall>p. preferred_index e = Some p \<longrightarrow> 0 \<le> p \<and> p < 64"
    by (simp add: patch_def)
  have d: "distinct ?pfs" by (simp add: patch_def)
  from C10_no_fabrication[OF h, of False] run d show ?thesis by blast
qed

end
